theory Spec2Isabelle
  imports Complex_Main "HOL-Library.Multiset"
begin

section \<open>Data model\<close>

text \<open>
  The module \<^verbatim>\<open>stacker.py\<close> works on NumPy arrays: a bounding box is an array of
  shape (3, 2) (one (min, max) row per axis), a translation is an array of shape (3,),
  and the stacking axis is 0, 1 or 2 (the add-on obtains it as the position of the
  user's choice in \<^verbatim>\<open>["X", "Y", "Z"]\<close>).

  Scalars are modelled as exact real numbers: the properties below are statements of
  geometry and do not speak about rounding. The add-on passes arrays of floats; the
  integer arrays of the unit tests behave alike as long as every value is an integer.
\<close>

datatype axis = X | Y | Z

datatype error = IndexError

type_synonym 'a vec3 = "'a \<times> 'a \<times> 'a"

type_synonym bound = "real \<times> real"

type_synonym box = "bound vec3"

type_synonym delta = "real vec3"

text \<open>The position of an axis in the arrays, as the source numbers them.\<close>

fun axis_index :: "axis \<Rightarrow> nat" where
  "axis_index X = 0"
| "axis_index Y = 1"
| "axis_index Z = 2"

text \<open>\<^verbatim>\<open>v[axis]\<close>\<close>

fun vget :: "'a vec3 \<Rightarrow> axis \<Rightarrow> 'a" where
  "vget (a, b, c) X = a"
| "vget (a, b, c) Y = b"
| "vget (a, b, c) Z = c"

text \<open>\<^verbatim>\<open>v[axis] = x\<close>, returning the updated array.\<close>

fun vset :: "'a vec3 \<Rightarrow> axis \<Rightarrow> 'a \<Rightarrow> 'a vec3" where
  "vset (a, b, c) X x = (x, b, c)"
| "vset (a, b, c) Y x = (a, x, c)"
| "vset (a, b, c) Z x = (a, b, x)"

text \<open>An elementwise operation on one array, and on two arrays of the same shape.\<close>

fun vmap :: "('a \<Rightarrow> 'b) \<Rightarrow> 'a vec3 \<Rightarrow> 'b vec3" where
  "vmap f (a, b, c) = (f a, f b, f c)"

fun vmap2 :: "('a \<Rightarrow> 'b \<Rightarrow> 'c) \<Rightarrow> 'a vec3 \<Rightarrow> 'b vec3 \<Rightarrow> 'c vec3" where
  "vmap2 f (a, b, c) (a', b', c') = (f a a', f b b', f c c')"

text \<open>Python's \<^verbatim>\<open>all\<close> on a boolean array of shape (3,).\<close>

fun vall :: "bool vec3 \<Rightarrow> bool" where
  "vall (a, b, c) = (a \<and> b \<and> c)"

text \<open>\<^verbatim>\<open>b[:, 0]\<close> and \<^verbatim>\<open>np.mean(b, axis=-1)\<close> of a box.\<close>

definition mins :: "box \<Rightarrow> delta" where
  "mins b = vmap fst b"

definition mean_bound :: "bound \<Rightarrow> real" where
  "mean_bound p = (fst p + snd p) / 2"

definition means :: "box \<Rightarrow> delta" where
  "means b = vmap mean_bound b"

text \<open>\<^verbatim>\<open>b[axis][0]\<close> and \<^verbatim>\<open>b[axis][1]\<close>: the lower and upper bound on an axis.\<close>

definition lower :: "box \<Rightarrow> axis \<Rightarrow> real" where
  "lower b ax = fst (vget b ax)"

definition upper :: "box \<Rightarrow> axis \<Rightarrow> real" where
  "upper b ax = snd (vget b ax)"



definition zero_delta :: delta where
  "zero_delta = (0, 0, 0)"


section \<open>Pairwise geometry\<close>

text \<open>
  \<^verbatim>\<open>translate_bounds(bounds, delta)\<close>: \<^verbatim>\<open>bounds + np.tile(delta, (2, 1)).T\<close>. The tiled
  and transposed delta has the row \<^verbatim>\<open>[d, d]\<close> on each axis.
\<close>

definition translate_bounds :: "box \<Rightarrow> delta \<Rightarrow> box" where
  "translate_bounds bounds d = vmap2 (\<lambda>p t. (fst p + t, snd p + t)) bounds d"

text \<open>
  \<^verbatim>\<open>stack_above(base_bounds, incoming_bounds, axis, padding, centering)\<close>. The two
  defaults of the source (\<^verbatim>\<open>padding=0\<close>, \<^verbatim>\<open>centering=True\<close>) are passed explicitly.
\<close>

definition stack_above :: "box \<Rightarrow> box \<Rightarrow> axis \<Rightarrow> real \<Rightarrow> bool \<Rightarrow> delta" where
  "stack_above base_bounds incoming_bounds ax padding centering =
     (let source0 = (if centering then means incoming_bounds else mins incoming_bounds);
          target0 = (if centering then means base_bounds else source0);
          source = vset source0 ax (lower incoming_bounds ax);
          target1 = vset target0 ax (upper base_bounds ax);
          target = vset target1 ax (vget target1 ax + padding)
      in vmap2 (-) target source)"

text \<open>
  \<^verbatim>\<open>is_below(bounds_a, bounds_b, axis)\<close>. The second line of the source ors the same
  two comparisons in the other order into \<^verbatim>\<open>collision\<close>.
\<close>

definition is_below :: "box \<Rightarrow> box \<Rightarrow> axis \<Rightarrow> bool" where
  "is_below bounds_a bounds_b ax =
     (let collision0 = vmap2 (\<lambda>a b. fst b < snd a \<and> snd b > fst a) bounds_a bounds_b;
          collision1 = vmap2 (\<or>) collision0
                         (vmap2 (\<lambda>a b. snd b > fst a \<and> fst b < snd a) bounds_a bounds_b);
          collision = vset collision1 ax (upper bounds_b ax \<ge> lower bounds_a ax)
      in vall collision)"

text \<open>
  The shadow test as the specification words it: the boxes overlap or touch on the two
  other axes (closed intervals intersect), and B reaches A's lower bound on the
  stacking axis.
\<close>

definition closed_overlap :: "bound \<Rightarrow> bound \<Rightarrow> bool" where
  "closed_overlap a b = (fst a \<le> snd b \<and> fst b \<le> snd a)"

definition is_below_closed_spec :: "box \<Rightarrow> box \<Rightarrow> axis \<Rightarrow> bool" where
  "is_below_closed_spec A B ax =
     ((\<forall>ax'. ax' \<noteq> ax \<longrightarrow> closed_overlap (vget A ax') (vget B ax'))
      \<and> upper B ax \<ge> lower A ax)"

section \<open>Ordering\<close>

text \<open>
  \<^verbatim>\<open>np.argsort\<close> is NumPy's, and the repository calls it with the default sort kind.
  NumPy documents the result as the indices that sort the array in ascending order, and
  does not promise, for the default kind, which of two equal keys comes first. The model
  is an insertion sort of the indices \<open>0..N-1\<close> by their keys; the theorems on
  \<open>drop_down\<close> below rest only on the result being a permutation in ascending key
  order. The comparison is a parameter, since the area keys below are quotients that
  need not be numbers.
\<close>

fun insert_index :: "('k \<Rightarrow> 'k \<Rightarrow> bool) \<Rightarrow> 'k list \<Rightarrow> nat \<Rightarrow> nat list \<Rightarrow> nat list" where
  "insert_index le ks i [] = [i]"
| "insert_index le ks i (j # js) =
     (if le (ks ! i) (ks ! j) then i # j # js else j # insert_index le ks i js)"

definition np_argsort :: "('k \<Rightarrow> 'k \<Rightarrow> bool) \<Rightarrow> 'k list \<Rightarrow> nat list" where
  "np_argsort le ks = foldr (insert_index le ks) [0..<length ks] []"

text \<open>\<^verbatim>\<open>argsort_by_height(bounds, axis)\<close>: \<^verbatim>\<open>np.argsort(bounds[:, axis, 0])\<close>.\<close>

definition argsort_by_height :: "box list \<Rightarrow> axis \<Rightarrow> nat list" where
  "argsort_by_height bounds ax = np_argsort (\<le>) (map (\<lambda>b. lower b ax) bounds)"

text \<open>
  NumPy's division does not raise on a zero divisor: it yields an infinity, or
  not-a-number for \<open>0 / 0\<close> (with a warning). The quotients are therefore values of
  their own type, and \<open>np_le\<close> is the order in which NumPy sorts them (not-a-number
  last).
\<close>

datatype npfloat = NegInf | Finite real | PosInf | NaN

definition np_divide :: "real \<Rightarrow> real \<Rightarrow> npfloat" where
  "np_divide x y =
     (if y \<noteq> 0 then Finite (x / y)
      else if x > 0 then PosInf
      else if x < 0 then NegInf
      else NaN)"

fun np_rank :: "npfloat \<Rightarrow> nat" where
  "np_rank NegInf = 0"
| "np_rank (Finite x) = 1"
| "np_rank PosInf = 2"
| "np_rank NaN = 3"

fun np_le :: "npfloat \<Rightarrow> npfloat \<Rightarrow> bool" where
  "np_le (Finite x) (Finite y) = (x \<le> y)"
| "np_le a b = (np_rank a \<le> np_rank b)"

text \<open>
  \<^verbatim>\<open>argsort_by_area(bounds, axis)\<close>: the extents \<^verbatim>\<open>bounds[:, :, 1] - bounds[:, :, 0]\<close>,
  their product over the three axes, and the product divided by the extent on the axis.
\<close>

definition dimensions :: "box \<Rightarrow> delta" where
  "dimensions b = vmap (\<lambda>p. snd p - fst p) b"

definition volume :: "box \<Rightarrow> real" where
  "volume b = (case dimensions b of (dx, dy, dz) \<Rightarrow> dx * dy * dz)"

definition extent :: "box \<Rightarrow> axis \<Rightarrow> real" where
  "extent b ax = vget (dimensions b) ax"

definition area :: "box \<Rightarrow> axis \<Rightarrow> npfloat" where
  "area b ax = np_divide (volume b) (extent b ax)"

definition argsort_by_area :: "box list \<Rightarrow> axis \<Rightarrow> nat list" where
  "argsort_by_area bounds ax = np_argsort np_le (map (\<lambda>b. area b ax) bounds)"

section \<open>Drop down\<close>

text \<open>
  \<^verbatim>\<open>np.argmax\<close> of a non-empty array, given as its first element and the rest: the
  index of the first occurrence of the maximum. \<open>argmax_from best bi k ys\<close> scans
  \<open>ys\<close>, whose first element has index \<open>k\<close>, with the best value so far and its index.
\<close>

fun argmax_from :: "real \<Rightarrow> nat \<Rightarrow> nat \<Rightarrow> real list \<Rightarrow> nat" where
  "argmax_from best bi k [] = bi"
| "argmax_from best bi k (y # ys) =
     (if best < y then argmax_from y k (Suc k) ys else argmax_from best bi (Suc k) ys)"

definition np_argmax :: "real \<Rightarrow> real list \<Rightarrow> nat" where
  "np_argmax x xs = argmax_from x 0 1 xs"

text \<open>The floor: a copy of the lowest box with \<^verbatim>\<open>floor[:, 1] = floor[:, 0]\<close>.\<close>

definition make_floor :: "box \<Rightarrow> box" where
  "make_floor b = vmap (\<lambda>p. (fst p, fst p)) b"

text \<open>
  The state of the loop of \<^verbatim>\<open>drop_down\<close>: the working copy of the boxes and the
  translations found so far, both indexed as the input is.
\<close>

record drop_state =
  st_bounds :: "box list"
  st_output :: "delta list"

text \<open>
  The already processed boxes \<^verbatim>\<open>bounds[j] for j in idxs[:idx]\<close>, at their current
  positions, that are below the box being processed.
\<close>

definition shadow_candidates :: "axis \<Rightarrow> box list \<Rightarrow> nat list \<Rightarrow> nat \<Rightarrow> box list" where
  "shadow_candidates ax bnds idxs idx =
     (let source = bnds ! (idxs ! idx);
          candidates = map (\<lambda>j. bnds ! j) (take idx idxs)
      in filter (\<lambda>b. is_below b source ax) candidates)"

text \<open>
  \<^verbatim>\<open>np.argmax(candidates[:, axis, 1])\<close> on \<^verbatim>\<open>[floor] + list(candidates)\<close>: the position
  of the selected surface in that list, where position 0 is the floor.
\<close>

definition select_index :: "axis \<Rightarrow> box \<Rightarrow> box list \<Rightarrow> nat" where
  "select_index ax flr cands = np_argmax (upper flr ax) (map (\<lambda>c. upper c ax) cands)"

text \<open>
  The translation of the box being processed: \<^verbatim>\<open>stack_above\<close> without centering and
  with its default padding 0, then the padding added on the stacking axis unless
  \<^verbatim>\<open>np.array_equal(target, floor)\<close>.
\<close>

definition drop_delta :: "axis \<Rightarrow> real \<Rightarrow> box \<Rightarrow> box \<Rightarrow> box \<Rightarrow> delta" where
  "drop_delta ax padding flr target source =
     (let out = stack_above target source ax 0 False
      in if target \<noteq> flr then vset out ax (vget out ax + padding) else out)"

text \<open>One iteration of the loop, for the position \<open>idx\<close> in the sorted order.\<close>

definition drop_step :: "axis \<Rightarrow> real \<Rightarrow> box \<Rightarrow> nat list \<Rightarrow> nat \<Rightarrow> drop_state \<Rightarrow> drop_state" where
  "drop_step ax padding flr idxs idx st =
     (let i = idxs ! idx;
          source = st_bounds st ! i;
          cands = shadow_candidates ax (st_bounds st) idxs idx;
          target = (flr # cands) ! select_index ax flr cands;
          d = drop_delta ax padding flr target source
      in \<lparr> st_bounds = (st_bounds st)[i := translate_bounds (st_bounds st ! i) d],
           st_output = (st_output st)[i := d] \<rparr>)"

text \<open>
  The body of \<^verbatim>\<open>drop_down\<close> once the processing order \<open>idxs\<close> is known. On an empty
  input \<^verbatim>\<open>idxs[0]\<close> raises \<^verbatim>\<open>IndexError\<close>.
\<close>

definition drop_down_from :: "nat list \<Rightarrow> box list \<Rightarrow> axis \<Rightarrow> real \<Rightarrow> error + drop_state" where
  "drop_down_from idxs bnds ax padding =
     (case idxs of
        [] \<Rightarrow> Inl IndexError
      | i0 # _ \<Rightarrow>
          (let flr = make_floor (bnds ! i0);
               init = \<lparr> st_bounds = bnds, st_output = replicate (length bnds) zero_delta \<rparr>
           in Inr (fold (drop_step ax padding flr idxs) [1..<length idxs] init)))"

text \<open>
  The state in which the iteration for the position \<open>idx\<close> begins: the initial state
  after the iterations for the positions \<open>1, ..., idx - 1\<close>.
\<close>

definition drop_down_before :: "nat \<Rightarrow> box list \<Rightarrow> axis \<Rightarrow> real \<Rightarrow> drop_state" where
  "drop_down_before idx bnds ax padding =
     (let idxs = argsort_by_height bnds ax;
          flr = make_floor (bnds ! hd idxs);
          init = \<lparr> st_bounds = bnds, st_output = replicate (length bnds) zero_delta \<rparr>
      in fold (drop_step ax padding flr idxs) [1..<idx] init)"

text \<open>
  \<^verbatim>\<open>drop_down(bounds, axis, padding)\<close>. \<open>drop_down_final\<close> is the state in which the loop
  ends (the working copy is local to the call), \<open>drop_down\<close> what the call returns.
\<close>

definition drop_down_final :: "box list \<Rightarrow> axis \<Rightarrow> real \<Rightarrow> error + drop_state" where
  "drop_down_final bnds ax padding = drop_down_from (argsort_by_height bnds ax) bnds ax padding"

definition drop_down :: "box list \<Rightarrow> axis \<Rightarrow> real \<Rightarrow> error + delta list" where
  "drop_down bnds ax padding = map_sum id st_output (drop_down_final bnds ax padding)"

section \<open>Auxiliary notions for the proofs\<close>

text \<open>The comparisons a sort is correct for: total and transitive.\<close>

definition total_preorder :: "('k \<Rightarrow> 'k \<Rightarrow> bool) \<Rightarrow> bool" where
  "total_preorder le = ((\<forall>a b. le a b \<or> le b a) \<and> (\<forall>a b c. le a b \<longrightarrow> le b c \<longrightarrow> le a c))"

text \<open>
  The invariant of the loop of \<open>drop_down\<close>, for the input \<open>bnds\<close> and the set
  \<open>S\<close> of indices written so far: the working copy is the input moved by the
  translations found so far, these are zero off the stacking axis, and zero at every
  index not yet written.
\<close>

definition drop_inv :: "box list \<Rightarrow> axis \<Rightarrow> nat set \<Rightarrow> drop_state \<Rightarrow> bool" where
  "drop_inv bnds ax S st =
     (length (st_bounds st) = length bnds \<and> length (st_output st) = length bnds
      \<and> (\<forall>i < length bnds. st_bounds st ! i = translate_bounds (bnds ! i) (st_output st ! i))
      \<and> (\<forall>i < length bnds. \<forall>ax'. ax' \<noteq> ax \<longrightarrow> vget (st_output st ! i) ax' = 0)
      \<and> (\<forall>i < length bnds. i \<notin> S \<longrightarrow> st_output st ! i = zero_delta))"

section \<open>Properties of the pairwise geometry\<close>


lemma axis_cases_all: "(\<forall>ax. P ax) = (P X \<and> P Y \<and> P Z)"
  by (metis axis.exhaust)




text \<open>
  C3, as the specification words it (boxes that only touch on a horizontal axis count as
  overlapping), fails: the first and the fourth box of the source's own test
  \<^verbatim>\<open>test_is_below\<close> share the face \<open>x = 1\<close>, and \<open>is_below\<close> is false on them
  ("Too far to the left/right").
\<close>

theorem is_below_closed_counterexample:
  "is_below_closed_spec ((1, 3), (1, 3), (1, 3)) ((0, 1), (1, 3), (1, 3)) Z
   \<and> \<not> is_below ((1, 3), (1, 3), (1, 3)) ((0, 1), (1, 3), (1, 3)) Z"
  by (simp add: is_below_closed_spec_def closed_overlap_def is_below_def lower_def upper_def
        axis_cases_all)

text \<open>
  C3, amended. \<open>is_below A B axis\<close> holds exactly when, on both other axes, B's min is
  strictly below A's max and B's max strictly above A's min (boxes that only share a face
  on such an axis do not count), and B's upper bound on the stacking axis is at least A's
  lower bound on it.
\<close>

theorem is_below_strict_iff:
  "is_below A B ax \<longleftrightarrow>
     ((\<forall>ax'. ax' \<noteq> ax \<longrightarrow>
          fst (vget B ax') < snd (vget A ax') \<and> snd (vget B ax') > fst (vget A ax'))
      \<and> upper B ax \<ge> lower A ax)"
proof -
  obtain ax' ay az where a: "A = (ax', ay, az)" by (cases A)
  obtain bx by' bz where b: "B = (bx, by', bz)" by (cases B)
  show ?thesis
    by (cases ax) (auto simp add: a b is_below_def lower_def upper_def axis_cases_all)
qed

theorem is_below_strict_iff_witness:
  "is_below ((2, 3), (2, 4), (2, 3)) ((2, 3), (2, 4), (4, 5)) Z
   \<and> \<not> is_below ((2, 3), (2, 4), (4, 5)) ((2, 3), (2, 4), (2, 3)) Z
   \<and> \<not> is_below ((1, 3), (1, 3), (1, 3)) ((0, 1), (1, 3), (1, 3)) Z"
  using is_below_strict_iff [of "((2, 3), (2, 4), (2, 3))" "((2, 3), (2, 4), (4, 5))" Z]
        is_below_strict_iff [of "((2, 3), (2, 4), (4, 5))" "((2, 3), (2, 4), (2, 3))" Z]
        is_below_strict_iff [of "((1, 3), (1, 3), (1, 3))" "((0, 1), (1, 3), (1, 3))" Z]
  by (simp add: lower_def upper_def axis_cases_all)

section \<open>Properties of the ordering\<close>

lemma mset_insert_index: "mset (insert_index le ks i js) = add_mset i (mset js)"
  by (induction js) simp_all

lemma mset_foldr_insert_index: "mset (foldr (insert_index le ks) xs []) = mset xs"
  by (induction xs) (simp_all add: mset_insert_index)

lemma mset_np_argsort: "mset (np_argsort le ks) = mset [0..<length ks]"
  unfolding np_argsort_def by (rule mset_foldr_insert_index)

lemma set_np_argsort: "set (np_argsort le ks) = {0..<length ks}"
  using mset_np_argsort [of le ks, THEN arg_cong [where f = set_mset]] by simp

lemma length_np_argsort: "length (np_argsort le ks) = length ks"
  using mset_np_argsort [of le ks, THEN arg_cong [where f = size]] by simp

lemma distinct_np_argsort: "distinct (np_argsort le ks)"
  using mset_np_argsort [of le ks] by (metis distinct_upt mset_eq_imp_distinct_iff)

lemma set_insert_index: "set (insert_index le ks i js) = insert i (set js)"
  using mset_insert_index [of le ks i js, THEN arg_cong [where f = set_mset]] by simp

lemma sorted_insert_index:
  assumes "total_preorder le" "sorted_wrt (\<lambda>i j. le (ks ! i) (ks ! j)) js"
  shows "sorted_wrt (\<lambda>i j. le (ks ! i) (ks ! j)) (insert_index le ks i js)"
  using assms(2)
proof (induction js)
  case Nil
  then show ?case by simp
next
  case (Cons j js)
  show ?case
  proof (cases "le (ks ! i) (ks ! j)")
    case True
    have tr: "le a b \<Longrightarrow> le b c \<Longrightarrow> le a c" for a b c
      using assms(1) unfolding total_preorder_def by blast
    from Cons.prems have "\<forall>x\<in>set js. le (ks ! j) (ks ! x)" by simp
    with True tr have "\<forall>x\<in>set js. le (ks ! i) (ks ! x)" by blast
    with True Cons.prems show ?thesis by simp
  next
    case False
    with assms(1) have "le (ks ! j) (ks ! i)"
      unfolding total_preorder_def by blast
    with False Cons show ?thesis
      by (auto simp add: set_insert_index)
  qed
qed

lemma sorted_np_argsort:
  assumes "total_preorder le"
  shows "sorted_wrt (\<lambda>i j. le (ks ! i) (ks ! j)) (np_argsort le ks)"
proof -
  have "sorted_wrt (\<lambda>i j. le (ks ! i) (ks ! j)) (foldr (insert_index le ks) xs [])" for xs
    by (induction xs) (simp_all add: sorted_insert_index [OF assms])
  then show ?thesis by (simp add: np_argsort_def)
qed

lemma total_preorder_real: "total_preorder ((\<le>) :: real \<Rightarrow> real \<Rightarrow> bool)"
  unfolding total_preorder_def by auto

lemma np_le_total: "np_le a b \<or> np_le b a"
  by (cases a; cases b) auto

lemma np_le_trans: "np_le a b \<Longrightarrow> np_le b c \<Longrightarrow> np_le a c"
  by (cases a; cases b; cases c) auto

lemma total_preorder_np_le: "total_preorder np_le"
  unfolding total_preorder_def using np_le_total np_le_trans by blast

lemma sorted_keys_reorder:
  assumes "sorted_wrt (\<lambda>i j. le (map key bnds ! i) (map key bnds ! j)) p"
    and "set p \<subseteq> {0..<length bnds}"
  shows "sorted_wrt le (map key (map ((!) bnds) p))"
proof -
  have r: "\<forall>i\<in>set p. map key bnds ! i = key (bnds ! i)"
    using assms(2) by auto
  have "sorted_wrt (\<lambda>i j. le (key (bnds ! i)) (key (bnds ! j))) p"
    by (rule sorted_wrt_mono_rel [OF _ assms(1)]) (use r in simp)
  then show ?thesis by (simp add: sorted_wrt_map)
qed

lemma argsort_by_height_facts:
  "distinct (argsort_by_height bnds ax)"
  "set (argsort_by_height bnds ax) = {0..<length bnds}"
  "length (argsort_by_height bnds ax) = length bnds"
  by (simp_all add: argsort_by_height_def distinct_np_argsort set_np_argsort length_np_argsort)

lemma argsort_by_height_lowest:
  assumes "argsort_by_height bnds ax = i0 # rest" and "j < length bnds"
  shows "lower (bnds ! i0) ax \<le> lower (bnds ! j) ax"
proof -
  let ?ks = "map (\<lambda>b. lower b ax) bnds"
  have eq: "np_argsort (\<le>) ?ks = i0 # rest"
    using assms(1) by (simp only: argsort_by_height_def)
  have "sorted_wrt (\<lambda>i j. ?ks ! i \<le> ?ks ! j) (np_argsort (\<le>) ?ks)"
    by (rule sorted_np_argsort [OF total_preorder_real])
  then have s: "sorted_wrt (\<lambda>i j. ?ks ! i \<le> ?ks ! j) (i0 # rest)"
    by (simp only: eq)
  have "set (np_argsort (\<le>) ?ks) = {0..<length ?ks}"
    by (rule set_np_argsort)
  then have mem: "set (i0 # rest) = {0..<length bnds}"
    by (simp only: eq length_map)
  have i0: "i0 < length bnds"
  proof -
    have "i0 \<in> set (i0 # rest)" by simp
    then have "i0 \<in> {0..<length bnds}" by (simp only: mem)
    then show ?thesis by simp
  qed
  have "j \<in> {0..<length bnds}" using assms(2) by simp
  then have "j \<in> set (i0 # rest)" by (simp only: mem)
  then have "j = i0 \<or> j \<in> set rest" by simp
  moreover have "\<forall>x\<in>set rest. ?ks ! i0 \<le> ?ks ! x"
    using s by simp
  ultimately have "?ks ! i0 \<le> ?ks ! j" by blast
  then show ?thesis using i0 assms(2) by simp
qed

text \<open>
  C7. For a collection of N boxes, \<open>argsort_by_height\<close> and \<open>argsort_by_area\<close> each
  return a permutation of \<open>0..N-1\<close>. The boxes reordered by the former have their lower
  bounds on the axis in non-decreasing order; when every box has a non-zero extent on
  the axis, the boxes reordered by the latter have their volume divided by that extent
  in non-decreasing order.
\<close>

theorem argsort_permutation_sorted:
  "mset (argsort_by_height bnds ax) = mset [0..<length bnds]
   \<and> sorted (map (\<lambda>b. lower b ax) (map ((!) bnds) (argsort_by_height bnds ax)))
   \<and> mset (argsort_by_area bnds ax) = mset [0..<length bnds]
   \<and> ((\<forall>b\<in>set bnds. extent b ax \<noteq> 0) \<longrightarrow>
        sorted (map (\<lambda>b. volume b / extent b ax) (map ((!) bnds) (argsort_by_area bnds ax))))"
proof -
  let ?h = "argsort_by_height bnds ax" and ?a = "argsort_by_area bnds ax"
  have h1: "mset ?h = mset [0..<length bnds]"
    by (simp add: argsort_by_height_def mset_np_argsort)
  have a1: "mset ?a = mset [0..<length bnds]"
    by (simp add: argsort_by_area_def mset_np_argsort)
  have "sorted_wrt (\<le>) (map (\<lambda>b. lower b ax) (map ((!) bnds) ?h))"
    unfolding argsort_by_height_def
    by (intro sorted_keys_reorder sorted_np_argsort total_preorder_real)
       (simp add: set_np_argsort)
  then have h2: "sorted (map (\<lambda>b. lower b ax) (map ((!) bnds) ?h))"
    by simp
  have a2: "sorted (map (\<lambda>b. volume b / extent b ax) (map ((!) bnds) ?a))"
    if nz: "\<forall>b\<in>set bnds. extent b ax \<noteq> 0"
  proof -
    have s: "sorted_wrt np_le (map (\<lambda>b. area b ax) (map ((!) bnds) ?a))"
      unfolding argsort_by_area_def
      by (intro sorted_keys_reorder sorted_np_argsort total_preorder_np_le)
         (simp add: set_np_argsort)
    have "set ?a = {0..<length bnds}"
      by (simp add: argsort_by_area_def set_np_argsort)
    then have "\<forall>i\<in>set ?a. bnds ! i \<in> set bnds" by simp
    with nz have fin: "\<forall>i\<in>set ?a. area (bnds ! i) ax
        = Finite (volume (bnds ! i) / extent (bnds ! i) ax)"
      by (simp add: area_def np_divide_def extent_def)
    have "sorted_wrt (\<lambda>i j. np_le (area (bnds ! i) ax) (area (bnds ! j) ax)) ?a"
      using s by (simp add: sorted_wrt_map)
    then have "sorted_wrt (\<lambda>i j. volume (bnds ! i) / extent (bnds ! i) ax
                  \<le> volume (bnds ! j) / extent (bnds ! j) ax) ?a"
      by (rule sorted_wrt_mono_rel [rotated]) (use fin in auto)
    then show ?thesis by (simp add: sorted_wrt_map)
  qed
  from h1 h2 a1 a2 show ?thesis by blast
qed

theorem argsort_permutation_sorted_witness:
  "list_all (\<lambda>b. extent b Z \<noteq> 0) [((1, 3), (1, 3), (1, 3)), ((1, 3), (3, 4), (1, 3)),
              ((1, 2), (3, 4), (1, 2)), ((1, 2), (3, 7), (1, 2))]
   \<and> argsort_by_area [((1, 3), (1, 3), (1, 3)), ((1, 3), (3, 4), (1, 3)),
              ((1, 2), (3, 4), (1, 2)), ((1, 2), (3, 7), (1, 2))] Z = [2, 1, 0, 3]
   \<and> sorted (map (\<lambda>b. volume b / extent b Z) (map ((!) [((1, 3), (1, 3), (1, 3)), ((1, 3), (3, 4), (1, 3)),
              ((1, 2), (3, 4), (1, 2)), ((1, 2), (3, 7), (1, 2))])
        (argsort_by_area [((1, 3), (1, 3), (1, 3)), ((1, 3), (3, 4), (1, 3)),
              ((1, 2), (3, 4), (1, 2)), ((1, 2), (3, 7), (1, 2))] Z)))"
proof -
  let ?bs = "[((1, 3), (1, 3), (1, 3)), ((1, 3), (3, 4), (1, 3)),
              ((1, 2), (3, 4), (1, 2)), ((1, 2), (3, 7), (1, 2))] :: box list"
  have nz: "\<forall>b\<in>set ?bs. extent b Z \<noteq> 0"
    by (simp add: extent_def dimensions_def)
  have v: "argsort_by_area ?bs Z = [2, 1, 0, 3]"
    by code_simp
  from argsort_permutation_sorted [of ?bs Z] nz v show ?thesis
    by (simp add: list_all_iff)
qed



section \<open>Properties of drop down\<close>

lemma argmax_from_spec:
  "(argmax_from best bi k ys = bi \<and> (\<forall>y\<in>set ys. y \<le> best))
   \<or> (k \<le> argmax_from best bi k ys \<and> argmax_from best bi k ys < k + length ys
       \<and> best < ys ! (argmax_from best bi k ys - k)
       \<and> (\<forall>j < argmax_from best bi k ys - k. ys ! j < ys ! (argmax_from best bi k ys - k))
       \<and> (\<forall>y\<in>set ys. y \<le> ys ! (argmax_from best bi k ys - k)))"
proof (induction ys arbitrary: best bi k)
  case Nil
  then show ?case by simp
next
  case (Cons y ys)
  show ?case
  proof (cases "best < y")
    case True
    let ?r = "argmax_from y k (Suc k) ys"
    have r: "argmax_from best bi k (y # ys) = ?r" using True by simp
    from Cons.IH [of y k "Suc k"] show ?thesis
    proof
      assume a: "?r = k \<and> (\<forall>y'\<in>set ys. y' \<le> y)"
      then show ?thesis using True by (auto simp add: r)
    next
      assume a: "Suc k \<le> ?r \<and> ?r < Suc k + length ys
       \<and> y < ys ! (?r - Suc k)
       \<and> (\<forall>j < ?r - Suc k. ys ! j < ys ! (?r - Suc k))
       \<and> (\<forall>y'\<in>set ys. y' \<le> ys ! (?r - Suc k))"
      then have d: "?r - k = Suc (?r - Suc k)" by arith
      have "\<forall>j < ?r - k. (y # ys) ! j < (y # ys) ! (?r - k)"
        using a by (auto simp add: d nth_Cons split: nat.splits)
      then show ?thesis using a True unfolding r by (auto simp add: d)
    qed
  next
    case False
    let ?r = "argmax_from best bi (Suc k) ys"
    have r: "argmax_from best bi k (y # ys) = ?r" using False by simp
    from Cons.IH [of best bi "Suc k"] show ?thesis
    proof
      assume a: "?r = bi \<and> (\<forall>y'\<in>set ys. y' \<le> best)"
      then show ?thesis using False by (auto simp add: r)
    next
      assume a: "Suc k \<le> ?r \<and> ?r < Suc k + length ys
       \<and> best < ys ! (?r - Suc k)
       \<and> (\<forall>j < ?r - Suc k. ys ! j < ys ! (?r - Suc k))
       \<and> (\<forall>y'\<in>set ys. y' \<le> ys ! (?r - Suc k))"
      then have d: "?r - k = Suc (?r - Suc k)" by arith
      have "\<forall>j < ?r - k. (y # ys) ! j < (y # ys) ! (?r - k)"
        using a False by (auto simp add: d nth_Cons split: nat.splits)
      then show ?thesis using a False unfolding r by (auto simp add: d)
    qed
  qed
qed

lemma np_argmax_first_max:
  "np_argmax x xs < Suc (length xs)
   \<and> (\<forall>j < Suc (length xs). (x # xs) ! j \<le> (x # xs) ! np_argmax x xs)
   \<and> (\<forall>j < np_argmax x xs. (x # xs) ! j < (x # xs) ! np_argmax x xs)"
proof -
  let ?r = "argmax_from x 0 1 xs"
  from argmax_from_spec [of x 0 1 xs] show ?thesis
  proof
    assume "?r = 0 \<and> (\<forall>y\<in>set xs. y \<le> x)"
    then show ?thesis
      by (auto simp add: np_argmax_def nth_Cons split: nat.splits)
  next
    assume a: "1 \<le> ?r \<and> ?r < 1 + length xs \<and> x < xs ! (?r - 1)
       \<and> (\<forall>j < ?r - 1. xs ! j < xs ! (?r - 1))
       \<and> (\<forall>y\<in>set xs. y \<le> xs ! (?r - 1))"
    then obtain m where m: "?r = Suc m" by (cases ?r) auto
    show ?thesis using a
      by (auto simp add: np_argmax_def m nth_Cons split: nat.splits)
  qed
qed

lemma select_index_first_max:
  "select_index ax flr cands < length (flr # cands)
   \<and> (\<forall>j < length (flr # cands).
         upper ((flr # cands) ! j) ax \<le> upper ((flr # cands) ! select_index ax flr cands) ax)
   \<and> (\<forall>j < select_index ax flr cands.
         upper ((flr # cands) ! j) ax < upper ((flr # cands) ! select_index ax flr cands) ax)"
proof -
  let ?tops = "map (\<lambda>c. upper c ax) cands"
  let ?k = "np_argmax (upper flr ax) ?tops"
  note am = np_argmax_first_max [of "upper flr ax" ?tops]
  have k: "?k < Suc (length cands)"
    using am by simp
  have nth: "(upper flr ax # ?tops) ! j = upper ((flr # cands) ! j) ax"
    if "j < Suc (length cands)" for j
    using that by (cases j) simp_all
  have le: "upper ((flr # cands) ! j) ax \<le> upper ((flr # cands) ! ?k) ax"
    if j: "j < Suc (length cands)" for j
  proof -
    have "(upper flr ax # ?tops) ! j \<le> (upper flr ax # ?tops) ! ?k"
      using am j by simp
    then show ?thesis by (simp only: nth [OF j] nth [OF k])
  qed
  have lt: "upper ((flr # cands) ! j) ax < upper ((flr # cands) ! ?k) ax"
    if j: "j < ?k" for j
  proof -
    from j k have j': "j < Suc (length cands)" by simp
    have "(upper flr ax # ?tops) ! j < (upper flr ax # ?tops) ! ?k"
      using am j by blast
    then show ?thesis by (simp only: nth [OF j'] nth [OF k])
  qed
  show ?thesis
    unfolding select_index_def using k le lt by simp
qed

lemma select_index_floor_iff:
  "(flr # cands) ! select_index ax flr cands = flr \<longleftrightarrow> select_index ax flr cands = 0"
proof
  assume eq: "(flr # cands) ! select_index ax flr cands = flr"
  show "select_index ax flr cands = 0"
  proof (rule ccontr)
    assume "select_index ax flr cands \<noteq> 0"
    then have "0 < select_index ax flr cands" by simp
    with select_index_first_max [of ax flr cands]
    have "upper ((flr # cands) ! 0) ax < upper ((flr # cands) ! select_index ax flr cands) ax"
      by blast
    with eq show False by simp
  qed
next
  assume "select_index ax flr cands = 0"
  then show "(flr # cands) ! select_index ax flr cands = flr" by simp
qed

lemma select_index_tie:
  assumes "\<forall>c\<in>set cands. upper c ax \<le> upper flr ax"
  shows "select_index ax flr cands = 0"
proof (rule ccontr)
  assume "select_index ax flr cands \<noteq> 0"
  then obtain m where m: "select_index ax flr cands = Suc m"
    by (cases "select_index ax flr cands") auto
  with select_index_first_max [of ax flr cands]
  have "m < length cands" and "upper flr ax < upper (cands ! m) ax"
    by auto
  then have "cands ! m \<in> set cands" and "\<not> upper (cands ! m) ax \<le> upper flr ax"
    by simp_all
  with assms show False by blast
qed

lemma translate_bounds_zero: "translate_bounds b zero_delta = b"
  by (cases b) (simp add: translate_bounds_def zero_delta_def)

lemma vget_zero_delta: "vget zero_delta ax = 0"
  by (cases ax) (simp_all add: zero_delta_def)

lemma stack_above_no_centering:
  "vget (stack_above target source ax padding False) ax'
     = (if ax' = ax then upper target ax + padding - lower source ax else 0)"
proof -
  obtain tx ty tz where t: "target = (tx, ty, tz)" by (cases target)
  obtain sx sy sz where s: "source = (sx, sy, sz)" by (cases source)
  show ?thesis
    by (cases ax; cases ax')
       (simp_all add: t s stack_above_def mins_def lower_def upper_def)
qed

lemma vget_vset: "vget (vset v ax x) ax' = (if ax' = ax then x else vget v ax')"
  by (cases v; cases ax; cases ax') simp_all

lemma drop_delta_component:
  "vget (drop_delta ax padding flr target source) ax'
     = (if ax' = ax
        then upper target ax - lower source ax + (if target \<noteq> flr then padding else 0)
        else 0)"
  by (simp add: drop_delta_def Let_def vget_vset stack_above_no_centering)

lemma drop_delta_cases:
  "drop_delta ax padding flr target source
     = (if target \<noteq> flr
        then vset (stack_above target source ax 0 False) ax
               (vget (stack_above target source ax 0 False) ax + padding)
        else stack_above target source ax 0 False)"
  by (simp add: drop_delta_def Let_def)

lemma drop_step_output:
  assumes "idxs ! idx < length (st_output st)"
  shows "st_output (drop_step ax padding flr idxs idx st) ! (idxs ! idx)
     = drop_delta ax padding flr
         ((flr # shadow_candidates ax (st_bounds st) idxs idx)
            ! select_index ax flr (shadow_candidates ax (st_bounds st) idxs idx))
         (st_bounds st ! (idxs ! idx))"
  using assms by (simp add: drop_step_def Let_def)

lemma drop_step_inv:
  assumes inv: "drop_inv bnds ax S st"
    and i: "idxs ! idx < length bnds" "idxs ! idx \<notin> S"
  shows "drop_inv bnds ax (insert (idxs ! idx) S) (drop_step ax padding flr idxs idx st)"
proof -
  let ?i = "idxs ! idx"
  define d where "d = drop_delta ax padding flr
      ((flr # shadow_candidates ax (st_bounds st) idxs idx)
         ! select_index ax flr (shadow_candidates ax (st_bounds st) idxs idx))
      (st_bounds st ! ?i)"
  have step: "drop_step ax padding flr idxs idx st
      = \<lparr> st_bounds = (st_bounds st)[?i := translate_bounds (st_bounds st ! ?i) d],
          st_output = (st_output st)[?i := d] \<rparr>"
    by (simp add: drop_step_def Let_def d_def)
  have len: "length (st_bounds st) = length bnds" "length (st_output st) = length bnds"
    using inv by (simp_all add: drop_inv_def)
  have "st_output st ! ?i = zero_delta"
    using inv i by (simp add: drop_inv_def)
  moreover have "st_bounds st ! ?i = translate_bounds (bnds ! ?i) (st_output st ! ?i)"
    using inv i by (simp add: drop_inv_def)
  ultimately have old: "st_bounds st ! ?i = bnds ! ?i"
    by (simp add: translate_bounds_zero)
  have other: "ax' \<noteq> ax \<Longrightarrow> vget d ax' = 0" for ax'
    by (simp add: d_def drop_delta_component)
  show ?thesis
    unfolding drop_inv_def step using inv i len old other
    by (auto simp add: drop_inv_def nth_list_update)
qed

lemma drop_fold_inv:
  assumes "drop_inv bnds ax S st"
    and "\<forall>p\<in>set ps. idxs ! p < length bnds \<and> idxs ! p \<notin> S"
    and "distinct (map ((!) idxs) ps)"
  shows "drop_inv bnds ax (S \<union> ((!) idxs) ` set ps)
           (fold (drop_step ax padding flr idxs) ps st)"
  using assms
proof (induction ps arbitrary: S st)
  case Nil
  then show ?case by simp
next
  case (Cons p ps)
  have "drop_inv bnds ax (insert (idxs ! p) S) (drop_step ax padding flr idxs p st)"
    using Cons.prems by (intro drop_step_inv) simp_all
  moreover have "\<forall>q\<in>set ps. idxs ! q < length bnds \<and> idxs ! q \<notin> insert (idxs ! p) S"
    using Cons.prems by (auto simp add: image_iff)
  moreover have "distinct (map ((!) idxs) ps)"
    using Cons.prems by simp
  ultimately have "drop_inv bnds ax (insert (idxs ! p) S \<union> ((!) idxs) ` set ps)
           (fold (drop_step ax padding flr idxs) ps (drop_step ax padding flr idxs p st))"
    by (rule Cons.IH)
  then show ?case by simp
qed

lemma drop_fold_frame:
  assumes "\<forall>p\<in>set ps. idxs ! p \<noteq> i"
  shows "st_output (fold (drop_step ax padding flr idxs) ps st) ! i = st_output st ! i"
  using assms
proof (induction ps arbitrary: st)
  case Nil
  then show ?case by simp
next
  case (Cons p ps)
  have "st_output (drop_step ax padding flr idxs p st) ! i = st_output st ! i"
    using Cons.prems by (simp add: drop_step_def Let_def)
  with Cons show ?case by simp
qed

lemma distinct_map_nth:
  assumes "distinct idxs" "distinct ps" "\<forall>p\<in>set ps. p < length idxs"
  shows "distinct (map ((!) idxs) ps)"
proof -
  have "inj_on ((!) idxs) (set ps)"
    using assms(1,3) by (auto simp add: inj_on_def nth_eq_iff_index_eq)
  with assms(2) show ?thesis by (simp add: distinct_map)
qed

lemma map_nth_tail: "map ((!) (x # xs)) [Suc 0..<Suc (length xs)] = xs"
proof -
  have "[Suc 0..<Suc (length xs)] = map Suc [0..<length xs]"
    by (simp only: map_Suc_upt)
  then have "map ((!) (x # xs)) [Suc 0..<Suc (length xs)] = map ((!) xs) [0..<length xs]"
    by simp
  then show ?thesis by (simp add: map_nth)
qed

lemma drop_inv_init:
  "drop_inv bnds ax {} \<lparr> st_bounds = bnds, st_output = replicate (length bnds) zero_delta \<rparr>"
  by (simp add: drop_inv_def translate_bounds_zero vget_zero_delta)

lemma drop_down_from_inv:
  assumes "distinct idxs" "set idxs = {0..<length bnds}" "bnds \<noteq> []"
  shows "\<exists>st. drop_down_from idxs bnds ax padding = Inr st
             \<and> drop_inv bnds ax (set (tl idxs)) st"
proof -
  from assms obtain i0 rest where idxs: "idxs = i0 # rest"
    by (cases idxs) auto
  let ?flr = "make_floor (bnds ! i0)"
  let ?init = "\<lparr> st_bounds = bnds, st_output = replicate (length bnds) zero_delta \<rparr>"
  let ?st = "fold (drop_step ax padding ?flr idxs) [1..<length idxs] ?init"
  have run: "drop_down_from idxs bnds ax padding = Inr ?st"
    by (simp add: drop_down_from_def idxs Let_def)
  have m: "map ((!) idxs) [1..<length idxs] = rest"
    by (simp add: idxs map_nth_tail del: upt_Suc)
  have "\<forall>p\<in>set [1..<length idxs]. idxs ! p < length bnds \<and> idxs ! p \<notin> {}"
  proof
    fix p assume "p \<in> set [1..<length idxs]"
    then have "idxs ! p \<in> set idxs" by simp
    with assms(2) show "idxs ! p < length bnds \<and> idxs ! p \<notin> {}" by simp
  qed
  moreover have "distinct (map ((!) idxs) [1..<length idxs])"
    using assms(1) unfolding m by (simp add: idxs)
  ultimately have "drop_inv bnds ax ({} \<union> ((!) idxs) ` set [1..<length idxs]) ?st"
    by (intro drop_fold_inv drop_inv_init)
  moreover have "((!) idxs) ` set [1..<length idxs] = set rest"
    using m by (metis set_map)
  ultimately show ?thesis using run by (simp add: idxs)
qed

lemma drop_down_before_inv:
  assumes "idx \<le> length bnds"
  shows "drop_inv bnds ax (((!) (argsort_by_height bnds ax)) ` set [1..<idx])
           (drop_down_before idx bnds ax padding)"
proof -
  let ?idxs = "argsort_by_height bnds ax"
  let ?flr = "make_floor (bnds ! hd ?idxs)"
  let ?init = "\<lparr> st_bounds = bnds, st_output = replicate (length bnds) zero_delta \<rparr>"
  have in_range: "\<forall>p\<in>set [1..<idx]. p < length ?idxs"
    using assms by (simp add: argsort_by_height_facts)
  have "\<forall>p\<in>set [1..<idx]. ?idxs ! p < length bnds \<and> ?idxs ! p \<notin> {}"
  proof
    fix p assume "p \<in> set [1..<idx]"
    with in_range have "?idxs ! p \<in> set ?idxs" by (simp only: nth_mem)
    then have "?idxs ! p \<in> {0..<length bnds}" by (simp only: argsort_by_height_facts)
    then show "?idxs ! p < length bnds \<and> ?idxs ! p \<notin> {}" by simp
  qed
  moreover have "distinct (map ((!) ?idxs) [1..<idx])"
    by (rule distinct_map_nth [OF argsort_by_height_facts(1) distinct_upt in_range])
  ultimately have "drop_inv bnds ax ({} \<union> ((!) ?idxs) ` set [1..<idx])
      (fold (drop_step ax padding ?flr ?idxs) [1..<idx] ?init)"
    by (intro drop_fold_inv drop_inv_init)
  then show ?thesis by (simp add: drop_down_before_def Let_def)
qed

lemma drop_down_final_before:
  assumes "bnds \<noteq> []"
  shows "drop_down_final bnds ax padding
           = Inr (drop_down_before (length bnds) bnds ax padding)"
proof -
  let ?idxs = "argsort_by_height bnds ax"
  have "?idxs \<noteq> []"
    using assms argsort_by_height_facts(3) [of bnds ax] by auto
  then obtain i0 rest where idxs: "?idxs = i0 # rest"
    by (cases ?idxs) simp_all
  have len: "length ?idxs = length bnds" by (rule argsort_by_height_facts)
  have "drop_down_from ?idxs bnds ax padding
      = Inr (fold (drop_step ax padding (make_floor (bnds ! hd ?idxs)) ?idxs) [1..<length ?idxs]
              \<lparr> st_bounds = bnds, st_output = replicate (length bnds) zero_delta \<rparr>)"
    unfolding drop_down_from_def Let_def idxs by simp
  then show ?thesis
    unfolding drop_down_final_def drop_down_before_def Let_def len by simp
qed

lemma drop_down_output_at:
  assumes "0 < idx" and "idx < length bnds"
  shows "\<exists>out. drop_down bnds ax padding = Inr out
           \<and> out ! (argsort_by_height bnds ax ! idx)
               = st_output (drop_step ax padding
                    (make_floor (bnds ! hd (argsort_by_height bnds ax)))
                    (argsort_by_height bnds ax) idx
                    (drop_down_before idx bnds ax padding))
                 ! (argsort_by_height bnds ax ! idx)"
proof -
  let ?idxs = "argsort_by_height bnds ax"
  let ?flr = "make_floor (bnds ! hd ?idxs)"
  let ?init = "\<lparr> st_bounds = bnds, st_output = replicate (length bnds) zero_delta \<rparr>"
  let ?f = "drop_step ax padding ?flr ?idxs"
  let ?n = "length bnds"
  from assms have ne: "bnds \<noteq> []" by auto
  have "[1..<idx + (?n - idx)] = [1..<idx] @ [idx..<idx + (?n - idx)]"
    using assms(1) by (intro upt_add_eq_append) simp
  moreover have "[idx..<?n] = idx # [Suc idx..<?n]"
    using assms(2) by (rule upt_conv_Cons)
  ultimately have split: "[1..<?n] = [1..<idx] @ idx # [Suc idx..<?n]"
    using assms(2) by simp
  have "drop_down_before ?n bnds ax padding
      = fold ?f [Suc idx..<?n] (?f idx (drop_down_before idx bnds ax padding))"
    unfolding drop_down_before_def Let_def by (subst split) simp
  moreover have "\<forall>p\<in>set [Suc idx..<?n]. ?idxs ! p \<noteq> ?idxs ! idx"
    using assms argsort_by_height_facts [of bnds ax]
    by (auto simp add: nth_eq_iff_index_eq)
  ultimately have "st_output (drop_down_before ?n bnds ax padding) ! (?idxs ! idx)
      = st_output (?f idx (drop_down_before idx bnds ax padding)) ! (?idxs ! idx)"
    by (simp only: drop_fold_frame)
  then show ?thesis
    by (simp add: drop_down_def drop_down_final_before [OF ne])
qed

lemma drop_down_before_source:
  assumes "0 < idx" and "idx < length bnds"
  shows "argsort_by_height bnds ax ! idx < length (st_output (drop_down_before idx bnds ax padding))"
    and "st_bounds (drop_down_before idx bnds ax padding) ! (argsort_by_height bnds ax ! idx)
           = bnds ! (argsort_by_height bnds ax ! idx)"
proof -
  let ?idxs = "argsort_by_height bnds ax"
  let ?st = "drop_down_before idx bnds ax padding"
  have inv: "drop_inv bnds ax (((!) ?idxs) ` set [1..<idx]) ?st"
    using assms by (intro drop_down_before_inv) simp
  have "?idxs ! idx \<in> set ?idxs"
    using assms(2) by (intro nth_mem) (simp only: argsort_by_height_facts(3))
  then have "?idxs ! idx \<in> {0..<length bnds}"
    by (simp only: argsort_by_height_facts)
  then have i: "?idxs ! idx < length bnds" by simp
  with inv show "?idxs ! idx < length (st_output ?st)"
    by (simp add: drop_inv_def)
  have "?idxs ! idx \<notin> ((!) ?idxs) ` set [1..<idx]"
    using assms argsort_by_height_facts [of bnds ax]
    by (auto simp add: nth_eq_iff_index_eq)
  with inv i have "st_output ?st ! (?idxs ! idx) = zero_delta"
    unfolding drop_inv_def by blast
  moreover from inv i have "st_bounds ?st ! (?idxs ! idx)
      = translate_bounds (bnds ! (?idxs ! idx)) (st_output ?st ! (?idxs ! idx))"
    unfolding drop_inv_def by blast
  ultimately show "st_bounds ?st ! (?idxs ! idx) = bnds ! (?idxs ! idx)"
    by (simp add: translate_bounds_zero)
qed

lemma drop_down_empty: "drop_down [] ax padding = Inl IndexError"
  by (simp add: drop_down_def drop_down_final_def drop_down_from_def argsort_by_height_def
        np_argsort_def)

text \<open>
  C2. On the two inputs that the specification gives literally, with axis 2 and padding 0,
  \<open>drop_down\<close> returns the translations stated there.
\<close>

theorem drop_down_examples:
  "drop_down [((1, 3), (1, 3), (1, 2)), ((2, 3), (2, 4), (3, 4)), ((0, 2), (0, 2), (5, 6))] Z 0
     = Inr [(0, 0, 0), (0, 0, -1), (0, 0, -3)]
   \<and> drop_down [((1, 2), (1, 2), (1, 2)), ((2, 3), (2, 3), (3, 4)), ((2, 3), (2, 3), (4, 5))] Z 0
     = Inr [(0, 0, 0), (0, 0, -2), (0, 0, -2)]"
  by code_simp

text \<open>
  C5. For every input and every position \<open>idx\<close> of the sorted order but the first, the
  translation that \<open>drop_down\<close> returns for the box processed at that position is the
  one \<open>stack_above\<close> gives without centering and without padding, with the padding
  added to its stacking-axis component exactly when the selected surface is not the floor,
  that is when the selected position \<open>k\<close> in the candidate list is not 0. The test of
  the source compares the selected box with the floor by value; the two agree. In
  particular a box that rests on the floor gets no padding, whatever the padding is.
\<close>

theorem drop_down_padding_iff_not_floor:
  assumes "0 < idx" and "idx < length bnds"
  shows "let idxs = argsort_by_height bnds ax;
             flr = make_floor (bnds ! hd idxs);
             st = drop_down_before idx bnds ax padding;
             i = idxs ! idx;
             cands = shadow_candidates ax (st_bounds st) idxs idx;
             k = select_index ax flr cands;
             target = (flr # cands) ! k;
             t = stack_above target (bnds ! i) ax 0 False
         in \<exists>out. drop_down bnds ax padding = Inr out
              \<and> (target = flr \<longleftrightarrow> k = 0)
              \<and> out ! i = (if k \<noteq> 0 then vset t ax (vget t ax + padding) else t)
              \<and> vget (out ! i) ax
                  = upper target ax - lower (bnds ! i) ax + (if k \<noteq> 0 then padding else 0)"
proof -
  let ?idxs = "argsort_by_height bnds ax"
  let ?flr = "make_floor (bnds ! hd ?idxs)"
  let ?st = "drop_down_before idx bnds ax padding"
  let ?i = "?idxs ! idx"
  let ?cands = "shadow_candidates ax (st_bounds ?st) ?idxs idx"
  let ?k = "select_index ax ?flr ?cands"
  let ?target = "(?flr # ?cands) ! ?k"
  let ?t = "stack_above ?target (bnds ! ?i) ax 0 False"
  note src = drop_down_before_source [OF assms, of ax padding]
  from drop_down_output_at [OF assms, of ax padding]
  obtain out where out: "drop_down bnds ax padding = Inr out"
    and at: "out ! ?i = st_output (drop_step ax padding ?flr ?idxs idx ?st) ! ?i"
    by blast
  have d: "out ! ?i = drop_delta ax padding ?flr ?target (bnds ! ?i)"
    by (simp only: at drop_step_output [OF src(1)] src(2))
  have iff: "?target = ?flr \<longleftrightarrow> ?k = 0"
    by (rule select_index_floor_iff)
  have o: "out ! ?i = (if ?k \<noteq> 0 then vset ?t ax (vget ?t ax + padding) else ?t)"
    unfolding d drop_delta_cases iff by (rule refl)
  have c: "vget (out ! ?i) ax
      = upper ?target ax - lower (bnds ! ?i) ax + (if ?k \<noteq> 0 then padding else 0)"
    unfolding d drop_delta_component iff by simp
  show ?thesis
    unfolding Let_def by (rule exI [of _ out]) (intro conjI out iff o c)
qed

theorem drop_down_padding_iff_not_floor_witness:
  "(0::nat) < 1
   \<and> 1 < length [((0, 1), (0, 1), (0, 4)) :: box, ((0, 1), (2, 3), (2, 3))]
   \<and> (\<exists>out. drop_down [((0, 1), (0, 1), (0, 4)), ((0, 1), (2, 3), (2, 3))] Z 1 = Inr out
          \<and> out ! 1 = (0, 0, -2))
   \<and> 1 < length [((0, 1), (0, 1), (0, 4)) :: box, ((0, 1), (0, 1), (5, 6))]
   \<and> (\<exists>out. drop_down [((0, 1), (0, 1), (0, 4)), ((0, 1), (0, 1), (5, 6))] Z 1 = Inr out
          \<and> out ! 1 = (0, 0, 0))"
proof -
  let ?B1 = "[((0, 1), (0, 1), (0, 4)), ((0, 1), (2, 3), (2, 3))] :: box list"
  let ?B2 = "[((0, 1), (0, 1), (0, 4)), ((0, 1), (0, 1), (5, 6))] :: box list"
  have h0: "(0::nat) < 1" by simp
  have h1: "1 < length ?B1" by simp
  have h2: "1 < length ?B2" by simp
  have k1: "select_index Z (make_floor (?B1 ! hd (argsort_by_height ?B1 Z)))
      (shadow_candidates Z (st_bounds (drop_down_before 1 ?B1 Z 1)) (argsort_by_height ?B1 Z) 1) = 0"
    by code_simp
  have k2: "select_index Z (make_floor (?B2 ! hd (argsort_by_height ?B2 Z)))
      (shadow_candidates Z (st_bounds (drop_down_before 1 ?B2 Z 1)) (argsort_by_height ?B2 Z) 1) = 1"
    by code_simp
  have i1: "argsort_by_height ?B1 Z ! 1 = 1" by code_simp
  have i2: "argsort_by_height ?B2 Z ! 1 = 1" by code_simp
  have t1: "stack_above ((make_floor (?B1 ! hd (argsort_by_height ?B1 Z))
      # shadow_candidates Z (st_bounds (drop_down_before 1 ?B1 Z 1)) (argsort_by_height ?B1 Z) 1) ! 0)
      (?B1 ! 1) Z 0 False = (0, 0, -2)"
    by code_simp
  have t2: "stack_above ((make_floor (?B2 ! hd (argsort_by_height ?B2 Z))
      # shadow_candidates Z (st_bounds (drop_down_before 1 ?B2 Z 1)) (argsort_by_height ?B2 Z) 1) ! 1)
      (?B2 ! 1) Z 0 False = (0, 0, -1)"
    by code_simp
  from drop_down_padding_iff_not_floor [OF h0 h1, of Z 1, unfolded Let_def k1 i1 t1]
  have w1: "\<exists>out. drop_down ?B1 Z 1 = Inr out \<and> out ! 1 = (0, 0, -2)"
    by auto
  from drop_down_padding_iff_not_floor [OF h0 h2, of Z 1, unfolded Let_def k2 i2 t2]
  have w2: "\<exists>out. drop_down ?B2 Z 1 = Inr out \<and> out ! 1 = (0, 0, 0)"
    by auto
  from h0 h1 h2 w1 w2 show ?thesis by (intro conjI)
qed

text \<open>
  C10. The surface selected for a box in \<open>drop_down\<close> is the first one in the candidate
  list whose upper bound on the stacking axis is maximal, and the floor is the first
  element of that list. Hence, when no candidate in the shadow is higher than the floor
  (so also when a box it rests on has its top exactly at floor height), the floor is
  selected and the returned translation is the one onto the floor, with no padding.
\<close>

theorem drop_down_tie_prefers_floor:
  assumes "0 < idx" and "idx < length bnds"
  shows "let idxs = argsort_by_height bnds ax;
             flr = make_floor (bnds ! hd idxs);
             st = drop_down_before idx bnds ax padding;
             i = idxs ! idx;
             cands = shadow_candidates ax (st_bounds st) idxs idx;
             k = select_index ax flr cands
         in k < length (flr # cands) \<and> (flr # cands) ! 0 = flr
            \<and> (\<forall>j < length (flr # cands).
                  upper ((flr # cands) ! j) ax \<le> upper ((flr # cands) ! k) ax)
            \<and> (\<forall>j < k. upper ((flr # cands) ! j) ax < upper ((flr # cands) ! k) ax)
            \<and> ((\<forall>c\<in>set cands. upper c ax \<le> upper flr ax) \<longrightarrow>
                 k = 0
                 \<and> (\<exists>out. drop_down bnds ax padding = Inr out
                       \<and> out ! i = stack_above flr (bnds ! i) ax 0 False
                       \<and> vget (out ! i) ax = upper flr ax - lower (bnds ! i) ax))"
proof -
  let ?idxs = "argsort_by_height bnds ax"
  let ?flr = "make_floor (bnds ! hd ?idxs)"
  let ?st = "drop_down_before idx bnds ax padding"
  let ?i = "?idxs ! idx"
  let ?cands = "shadow_candidates ax (st_bounds ?st) ?idxs idx"
  let ?k = "select_index ax ?flr ?cands"
  note src = drop_down_before_source [OF assms, of ax padding]
  note fm = select_index_first_max [of ax ?flr ?cands]
  from drop_down_output_at [OF assms, of ax padding]
  obtain out where out: "drop_down bnds ax padding = Inr out"
    and at: "out ! ?i = st_output (drop_step ax padding ?flr ?idxs idx ?st) ! ?i"
    by blast
  have d: "out ! ?i = drop_delta ax padding ?flr ((?flr # ?cands) ! ?k) (bnds ! ?i)"
    by (simp only: at drop_step_output [OF src(1)] src(2))
  have first: "(?flr # ?cands) ! 0 = ?flr" by simp
  have tie: "?k = 0
      \<and> (\<exists>out. drop_down bnds ax padding = Inr out
            \<and> out ! ?i = stack_above ?flr (bnds ! ?i) ax 0 False
            \<and> vget (out ! ?i) ax = upper ?flr ax - lower (bnds ! ?i) ax)"
    if t: "\<forall>c\<in>set ?cands. upper c ax \<le> upper ?flr ax"
  proof -
    have k: "?k = 0" using t by (rule select_index_tie)
    have o: "out ! ?i = stack_above ?flr (bnds ! ?i) ax 0 False"
      unfolding d k by (simp add: drop_delta_cases)
    have c: "vget (out ! ?i) ax = upper ?flr ax - lower (bnds ! ?i) ax"
      unfolding o by (simp add: stack_above_no_centering)
    from out o c have "\<exists>out. drop_down bnds ax padding = Inr out
            \<and> out ! ?i = stack_above ?flr (bnds ! ?i) ax 0 False
            \<and> vget (out ! ?i) ax = upper ?flr ax - lower (bnds ! ?i) ax"
      by (intro exI [of _ out] conjI)
    with k show ?thesis by (rule conjI)
  qed
  show ?thesis
    unfolding Let_def
    by (intro conjI impI fm [THEN conjunct1] fm [THEN conjunct2, THEN conjunct1]
          fm [THEN conjunct2, THEN conjunct2] first tie [THEN conjunct1] tie [THEN conjunct2])
qed

theorem drop_down_tie_prefers_floor_witness:
  "(0::nat) < 1
   \<and> 1 < length [((0, 1), (0, 1), (0, 0)) :: box, ((0, 1), (0, 1), (5, 6))]
   \<and> shadow_candidates Z
        (st_bounds (drop_down_before 1 [((0, 1), (0, 1), (0, 0)), ((0, 1), (0, 1), (5, 6))] Z 1))
        (argsort_by_height [((0, 1), (0, 1), (0, 0)), ((0, 1), (0, 1), (5, 6))] Z) 1
       = [((0, 1), (0, 1), (0, 0))]
   \<and> upper ((0, 1), (0, 1), (0, 0)) Z
       = upper (make_floor ([((0, 1), (0, 1), (0, 0)), ((0, 1), (0, 1), (5, 6))]
           ! hd (argsort_by_height [((0, 1), (0, 1), (0, 0)), ((0, 1), (0, 1), (5, 6))] Z))) Z
   \<and> (\<exists>out. drop_down [((0, 1), (0, 1), (0, 0)), ((0, 1), (0, 1), (5, 6))] Z 1 = Inr out
          \<and> out ! 1 = (0, 0, -5))"
proof -
  let ?B = "[((0, 1), (0, 1), (0, 0)), ((0, 1), (0, 1), (5, 6))] :: box list"
  let ?flr = "make_floor (?B ! hd (argsort_by_height ?B Z))"
  let ?cands = "shadow_candidates Z (st_bounds (drop_down_before 1 ?B Z 1))
      (argsort_by_height ?B Z) 1"
  have h0: "(0::nat) < 1" by simp
  have h1: "1 < length ?B" by simp
  have c: "?cands = [((0, 1), (0, 1), (0, 0))]" by code_simp
  have u: "upper ((0, 1), (0, 1), (0, 0)) Z = upper ?flr Z" by code_simp
  have tie: "\<forall>c\<in>set ?cands. upper c Z \<le> upper ?flr Z"
    unfolding c using u by simp
  have i: "argsort_by_height ?B Z ! 1 = 1" by code_simp
  have t: "stack_above ?flr (?B ! 1) Z 0 False = (0, 0, -5)" by code_simp
  from drop_down_tie_prefers_floor [OF h0 h1, of Z 1, unfolded Let_def] tie
  have "\<exists>out. drop_down ?B Z 1 = Inr out
      \<and> out ! (argsort_by_height ?B Z ! 1) = stack_above ?flr (?B ! (argsort_by_height ?B Z ! 1)) Z 0 False
      \<and> vget (out ! (argsort_by_height ?B Z ! 1)) Z
          = upper ?flr Z - lower (?B ! (argsort_by_height ?B Z ! 1)) Z"
    by blast
  then have w: "\<exists>out. drop_down ?B Z 1 = Inr out \<and> out ! 1 = (0, 0, -5)"
    unfolding i t by blast
  from h0 h1 c u w show ?thesis by (intro conjI)
qed

text \<open>
  C6. On a non-empty input \<open>drop_down\<close> returns one translation per input box, at the
  box's index in the input: the working copy in which the loop ends holds, at each index,
  the input box of that index moved by the translation returned at that index. The first
  box in sorted order, which has the least lower bound on the axis, gets the zero vector,
  and every translation is zero on the two other axes. (On an empty input the source raises
  \<^verbatim>\<open>IndexError\<close> and returns nothing.)
\<close>

theorem drop_down_output:
  assumes "bnds \<noteq> []"
  shows "\<exists>st. drop_down_final bnds ax padding = Inr st
          \<and> drop_down bnds ax padding = Inr (st_output st)
          \<and> length (st_output st) = length bnds
          \<and> (\<forall>i < length bnds.
                st_bounds st ! i = translate_bounds (bnds ! i) (st_output st ! i))
          \<and> hd (argsort_by_height bnds ax) < length bnds
          \<and> (\<forall>j < length bnds.
                lower (bnds ! hd (argsort_by_height bnds ax)) ax \<le> lower (bnds ! j) ax)
          \<and> st_output st ! hd (argsort_by_height bnds ax) = zero_delta
          \<and> (\<forall>i < length bnds. \<forall>ax'. ax' \<noteq> ax \<longrightarrow> vget (st_output st ! i) ax' = 0)"
proof -
  let ?idxs = "argsort_by_height bnds ax"
  have d: "distinct ?idxs"
    by (simp add: argsort_by_height_def distinct_np_argsort)
  have s: "set ?idxs = {0..<length bnds}"
    by (simp add: argsort_by_height_def set_np_argsort)
  from drop_down_from_inv [OF d s assms, of ax padding]
  obtain st where run: "drop_down_from ?idxs bnds ax padding = Inr st"
    and inv: "drop_inv bnds ax (set (tl ?idxs)) st"
    by blast
  have "length ?idxs = length bnds"
    by (simp add: argsort_by_height_def length_np_argsort)
  with assms have "?idxs \<noteq> []" by auto
  then obtain i0 rest where idxs: "?idxs = i0 # rest"
    by (cases ?idxs) simp_all
  have "i0 \<in> set ?idxs" by (simp only: idxs list.set_intros)
  then have "i0 \<in> {0..<length bnds}" by (simp only: s)
  then have i0: "i0 < length bnds" by simp
  from d have "distinct (i0 # rest)" by (simp only: idxs)
  then have "i0 \<notin> set rest" by simp
  then have "i0 \<notin> set (tl ?idxs)" unfolding idxs by simp
  with inv i0 have z: "st_output st ! i0 = zero_delta"
    by (simp add: drop_inv_def)
  have low: "\<forall>j < length bnds. lower (bnds ! i0) ax \<le> lower (bnds ! j) ax"
    using argsort_by_height_lowest [OF idxs] by blast
  have fin: "drop_down_final bnds ax padding = Inr st"
    using run by (simp add: drop_down_final_def)
  then have out: "drop_down bnds ax padding = Inr (st_output st)"
    by (simp add: drop_down_def)
  have l: "length (st_output st) = length bnds"
    using inv by (simp add: drop_inv_def)
  have tr: "\<forall>i < length bnds.
       st_bounds st ! i = translate_bounds (bnds ! i) (st_output st ! i)"
    using inv by (simp add: drop_inv_def)
  have oth: "\<forall>i < length bnds. \<forall>ax'. ax' \<noteq> ax \<longrightarrow> vget (st_output st ! i) ax' = 0"
    using inv by (simp add: drop_inv_def)
  have hd: "hd ?idxs = i0" by (simp only: idxs list.sel)
  show ?thesis
    unfolding hd
    by (rule exI [of _ st]) (intro conjI fin out l tr i0 low z oth)
qed

theorem drop_down_output_witness:
  "[((0, 1), (0, 1), (0, 1)), ((0, 1), (1, 2), (4, 5)), ((0, 1), (0, 1), (2, 3))] \<noteq> ([] :: box list)
   \<and> argsort_by_height
        [((0, 1), (0, 1), (0, 1)), ((0, 1), (1, 2), (4, 5)), ((0, 1), (0, 1), (2, 3))] Z = [0, 2, 1]
   \<and> drop_down
        [((0, 1), (0, 1), (0, 1)), ((0, 1), (1, 2), (4, 5)), ((0, 1), (0, 1), (2, 3))] Z 0
       = Inr [(0, 0, 0), (0, 0, -4), (0, 0, -1)]
   \<and> (\<exists>st. drop_down_final
        [((0, 1), (0, 1), (0, 1)), ((0, 1), (1, 2), (4, 5)), ((0, 1), (0, 1), (2, 3))] Z 0 = Inr st
         \<and> st_output st = [(0, 0, 0), (0, 0, -4), (0, 0, -1)]
         \<and> st_bounds st ! 1 = translate_bounds ((0, 1), (1, 2), (4, 5)) (st_output st ! 1))"
proof -
  let ?bs = "[((0, 1), (0, 1), (0, 1)), ((0, 1), (1, 2), (4, 5)), ((0, 1), (0, 1), (2, 3))] :: box list"
  have ne: "?bs \<noteq> []" by simp
  have a: "argsort_by_height ?bs Z = [0, 2, 1]" by code_simp
  have v: "drop_down ?bs Z 0 = Inr [(0, 0, 0), (0, 0, -4), (0, 0, -1)]" by code_simp
  from drop_down_output [OF ne, of Z 0] obtain st where
    st: "drop_down_final ?bs Z 0 = Inr st" "drop_down ?bs Z 0 = Inr (st_output st)"
      "\<forall>i < length ?bs. st_bounds st ! i = translate_bounds (?bs ! i) (st_output st ! i)"
    by blast
  from st(2) v have o: "st_output st = [(0, 0, 0), (0, 0, -4), (0, 0, -1)]" by simp
  from st(3) have "st_bounds st ! 1 = translate_bounds (?bs ! 1) (st_output st ! 1)"
    by simp
  then have "st_bounds st ! 1 = translate_bounds ((0, 1), (1, 2), (4, 5)) (st_output st ! 1)"
    by simp
  with ne a v st(1) o show ?thesis by blast
qed

end
